theory Spec2Isabelle
  imports Main
begin

section \<open>Data model\<close>

text \<open>
  The two marks the application ever places are the strings \<^verbatim>\<open>'X'\<close> and \<^verbatim>\<open>'O'\<close>.
  They are written \<open>MX\<close> and \<open>MO\<close> here.
  A stored cell is \<^verbatim>\<open>null\<close> or one of these marks.  Reading an array at an index
  yields the stored cell, or \<^verbatim>\<open>undefined\<close> when the index is not below the array's
  length; the read is modelled by \<open>cell_at\<close>, with \<open>None\<close> for \<^verbatim>\<open>undefined\<close>.
\<close>

datatype mark = MX | MO

datatype cell = Null | Mark mark

definition cell_at :: "cell list \<Rightarrow> nat \<Rightarrow> cell option" where
  "cell_at bd i = (if i < length bd then Some (bd ! i) else None)"

text \<open>JavaScript truthiness: \<^verbatim>\<open>undefined\<close> and \<^verbatim>\<open>null\<close> are falsy, a mark is truthy.\<close>

fun truthy :: "cell option \<Rightarrow> bool" where
  "truthy (Some (Mark m)) = True"
| "truthy (Some Null) = False"
| "truthy None = False"

text \<open>\<^verbatim>\<open>const initialBoard = () => Array(9).fill(null)\<close>\<close>

definition initialBoard :: "cell list" where
  "initialBoard = replicate 9 Null"

text \<open>The table \<^verbatim>\<open>LINES\<close>: rows, then columns, then diagonals.\<close>

definition LINES :: "(nat \<times> nat \<times> nat) list" where
  "LINES = [(0,1,2), (3,4,5), (6,7,8),
            (0,3,6), (1,4,7), (2,5,8),
            (0,4,8), (2,4,6)]"

text \<open>
  The object returned by \<^verbatim>\<open>calculateWinner\<close>: its field \<^verbatim>\<open>winner\<close> is a mark, the
  string \<^verbatim>\<open>'draw'\<close> or \<^verbatim>\<open>null\<close>; its field \<^verbatim>\<open>line\<close> is the winning triple or the
  empty array.
\<close>

datatype winner_tag = WMark mark | WDraw | WNull

record outcome =
  winner :: winner_tag
  line :: "nat list"

text \<open>Truthiness of the field \<^verbatim>\<open>winner\<close>: a non-empty string is truthy, \<^verbatim>\<open>null\<close> is falsy.\<close>

fun truthy_winner :: "winner_tag \<Rightarrow> bool" where
  "truthy_winner (WMark m) = True"
| "truthy_winner WDraw = True"
| "truthy_winner WNull = False"

section \<open>Board evaluator\<close>

text \<open>
  The \<^verbatim>\<open>for (const [a, b, c] of LINES)\<close> loop of \<^verbatim>\<open>calculateWinner\<close>, returning at the
  first line that passes the test
  \<^verbatim>\<open>board[a] && board[a] === board[b] && board[b] === board[c]\<close>.
\<close>

fun scan_lines :: "cell list \<Rightarrow> (nat \<times> nat \<times> nat) list \<Rightarrow> outcome option" where
  "scan_lines bd [] = None"
| "scan_lines bd ((a, b, c) # ls) =
     (case cell_at bd a of
        Some (Mark m) \<Rightarrow>
          (if cell_at bd a = cell_at bd b \<and> cell_at bd b = cell_at bd c
           then Some \<lparr>winner = WMark m, line = [a, b, c]\<rparr>
           else scan_lines bd ls)
      | _ \<Rightarrow> scan_lines bd ls)"

definition calculateWinner :: "cell list \<Rightarrow> outcome" where
  "calculateWinner bd =
     (case scan_lines bd LINES of
        Some res \<Rightarrow> res
      | None \<Rightarrow>
          (if list_all (\<lambda>v. truthy (Some v)) bd then \<lparr>winner = WDraw, line = []\<rparr>
           else \<lparr>winner = WNull, line = []\<rparr>))"

text \<open>
  \<^verbatim>\<open>board.map((v, i) => (v ? null : i)).filter(v => v !== null)\<close>: the indices of the
  falsy cells, in ascending order.
\<close>

definition availableMoves :: "cell list \<Rightarrow> nat list" where
  "availableMoves bd =
     List.map_filter (\<lambda>v. v)
       (map (\<lambda>(i, v). if truthy (Some v) then None else Some i) (enumerate 0 bd))"

section \<open>Move advisor\<close>

text \<open>
  Both \<^verbatim>\<open>for (const move of moves)\<close> loops of \<^verbatim>\<open>computeAIMove\<close> have the same body
  up to the mark that is placed: copy the board, write the mark at \<open>move\<close>, and return
  \<open>move\<close> when the copy's winner is that mark.  Every \<open>move\<close> is an index of the board,
  so the write is an update in range.
\<close>

fun try_moves :: "cell list \<Rightarrow> mark \<Rightarrow> nat list \<Rightarrow> nat option" where
  "try_moves bd m [] = None"
| "try_moves bd m (move # moves) =
     (let copy = bd[move := Mark m]
      in if winner (calculateWinner copy) = WMark m then Some move
         else try_moves bd m moves)"

text \<open>
  \<^verbatim>\<open>Math.floor(Math.random() * n)\<close> for a positive length \<open>n\<close> is some index below
  \<open>n\<close>.  The random source is abstracted as a natural number \<open>r\<close> drawn by the
  caller, from which the index is taken; every index below \<open>n\<close> arises from some \<open>r\<close>.
\<close>

definition random_index :: "nat \<Rightarrow> nat \<Rightarrow> nat" where
  "random_index r n = r mod n"

definition computeAIMove :: "nat \<Rightarrow> cell list \<Rightarrow> mark \<Rightarrow> mark \<Rightarrow> nat option" where
  "computeAIMove r bd ai human =
     (let moves = availableMoves bd in
      case try_moves bd ai moves of
        Some move \<Rightarrow> Some move
      | None \<Rightarrow>
     (case try_moves bd human moves of
        Some move \<Rightarrow> Some move
      | None \<Rightarrow>
      if cell_at bd 4 = Some Null then Some 4
      else
        let corners = filter (\<lambda>i. cell_at bd i = Some Null) [0, 2, 6, 8] in
        if corners \<noteq> [] then Some (corners ! random_index r (length corners))
        else
          let sides = filter (\<lambda>i. cell_at bd i = Some Null) [1, 3, 5, 7] in
          if sides \<noteq> [] then Some (sides ! random_index r (length sides))
          else if moves \<noteq> [] then Some (moves ! 0) else None))"

section \<open>Game state and its transitions\<close>

text \<open>
  The state held by the component \<^verbatim>\<open>App\<close>: the board, whose turn it is, the mode
  (\<^verbatim>\<open>'pvc'\<close> or \<^verbatim>\<open>'pvp'\<close>), the score counters and the flag \<^verbatim>\<open>aiThinking\<close>.
  The counters \<^verbatim>\<open>x\<close> and \<^verbatim>\<open>o\<close> are written \<open>x_wins\<close> and \<open>o_wins\<close>.  The theme is
  constant and is left out.
\<close>

datatype mode = PvC | PvP

record scores =
  x_wins :: nat
  o_wins :: nat
  draws :: nat

record state =
  board :: "cell list"
  xIsNext :: bool
  mode :: mode
  scores :: scores
  aiThinking :: bool

definition initial_state :: state where
  "initial_state =
     \<lparr>board = initialBoard, xIsNext = True, mode = PvC,
      scores = \<lparr>x_wins = 0, o_wins = 0, draws = 0\<rparr>, aiThinking = False\<rparr>"

text \<open>
  \<^verbatim>\<open>handleSquareClick(i)\<close>.  The handler is attached to the squares rendered by
  \<^verbatim>\<open>board.map\<close>, one for each cell, so \<open>i\<close> is an index of the board and the write
  \<^verbatim>\<open>copy[i] = ...\<close> is an update in range; the transition function \<open>fire\<close> below only
  delivers clicks with such an index.
\<close>

definition handleSquareClick :: "nat \<Rightarrow> state \<Rightarrow> state" where
  "handleSquareClick i s =
     (if truthy_winner (winner (calculateWinner (board s))) \<or> truthy (cell_at (board s) i)
         \<or> (mode s = PvC \<and> aiThinking s)
      then s
      else s\<lparr>board := (board s)[i := Mark (if xIsNext s then MX else MO)],
             xIsNext := \<not> xIsNext s\<rparr>)"

definition resetBoard :: "state \<Rightarrow> state" where
  "resetBoard s = s\<lparr>board := initialBoard, xIsNext := True, aiThinking := False\<rparr>"

definition newMatch :: "state \<Rightarrow> state" where
  "newMatch s = resetBoard s"

definition resetScores :: "state \<Rightarrow> state" where
  "resetScores s = resetBoard (s\<lparr>scores := \<lparr>x_wins = 0, o_wins = 0, draws = 0\<rparr>\<rparr>)"

text \<open>The mode switch: \<^verbatim>\<open>onChange={(m) => { setMode(m); newMatch(); }}\<close>.\<close>

definition changeMode :: "mode \<Rightarrow> state \<Rightarrow> state" where
  "changeMode m s = newMatch (s\<lparr>mode := m\<rparr>)"

text \<open>
  The effect that lets the computer move.  Its body returns at once unless the mode is
  \<^verbatim>\<open>'pvc'\<close>, the board is undecided and it is O's turn; otherwise it sets
  \<^verbatim>\<open>aiThinking\<close> and starts a timer.
\<close>

definition ai_due :: "state \<Rightarrow> bool" where
  "ai_due s =
     (\<not> (mode s \<noteq> PvC \<or> truthy_winner (winner (calculateWinner (board s))) \<or> xIsNext s))"

definition aiEffect :: "state \<Rightarrow> state" where
  "aiEffect s = (if ai_due s then s\<lparr>aiThinking := True\<rparr> else s)"

text \<open>
  The timer's callback.  The effect's cleanup clears the timer whenever the board, the
  mode or the turn changes, so the callback runs on the board the effect saw: the board
  passed to \<^verbatim>\<open>computeAIMove\<close> and the board updated by \<^verbatim>\<open>setBoard\<close> are the same, and
  the effect's condition still holds.  The argument \<open>r\<close> is the random draw.
\<close>

definition aiTimer :: "nat \<Rightarrow> state \<Rightarrow> state" where
  "aiTimer r s =
     (case computeAIMove r (board s) MO MX of
        Some move \<Rightarrow>
          s\<lparr>board := (board s)[move := Mark MO], xIsNext := True, aiThinking := False\<rparr>
      | None \<Rightarrow> s\<lparr>aiThinking := False\<rparr>)"

text \<open>
  The scoring effect returns at once when its board has no winner; otherwise its timer
  adds one to the counter of the winner \<open>w\<close> it found.  The timer is not cancelled, so
  it may run in a later state; it never touches the board.
\<close>

definition scoreTimer :: "winner_tag \<Rightarrow> state \<Rightarrow> state" where
  "scoreTimer w s =
     s\<lparr>scores :=
         (if w = WMark MX then (scores s)\<lparr>x_wins := x_wins (scores s) + 1\<rparr>
          else if w = WMark MO then (scores s)\<lparr>o_wins := o_wins (scores s) + 1\<rparr>
          else (scores s)\<lparr>draws := draws (scores s) + 1\<rparr>)\<rparr>"

text \<open>
  The events of the game and the transition each one causes; \<open>None\<close> when the event
  cannot occur in the state.
\<close>

datatype event =
    Click nat
  | AIEffect
  | AITimer nat
  | ScoreTimer winner_tag
  | NewMatch
  | ResetScores
  | ChangeMode mode

fun fire :: "event \<Rightarrow> state \<Rightarrow> state option" where
  "fire (Click i) s = (if i < length (board s) then Some (handleSquareClick i s) else None)"
| "fire AIEffect s = Some (aiEffect s)"
| "fire (AITimer r) s = (if ai_due s \<and> aiThinking s then Some (aiTimer r s) else None)"
| "fire (ScoreTimer w) s = (if truthy_winner w then Some (scoreTimer w s) else None)"
| "fire NewMatch s = Some (newMatch s)"
| "fire ResetScores s = Some (resetScores s)"
| "fire (ChangeMode m) s = Some (changeMode m s)"

fun run :: "event list \<Rightarrow> state \<Rightarrow> state option" where
  "run [] s = Some s"
| "run (e # es) s = (case fire e s of None \<Rightarrow> None | Some s' \<Rightarrow> run es s')"

text \<open>The events that start a new round.\<close>

fun is_reset :: "event \<Rightarrow> bool" where
  "is_reset NewMatch = True"
| "is_reset ResetScores = True"
| "is_reset (ChangeMode m) = True"
| "is_reset e = False"

section \<open>Notions used to state the properties\<close>

text \<open>The array \<^verbatim>\<open>[a, b, c]\<close> of a line's three indices.\<close>

definition line_indices :: "nat \<times> nat \<times> nat \<Rightarrow> nat list" where
  "line_indices l = (case l of (a, b, c) \<Rightarrow> [a, b, c])"

text \<open>
  A line is complete for a mark when each of its three indices is a cell of the board
  and that cell holds the mark.
\<close>

definition line_complete :: "cell list \<Rightarrow> nat \<times> nat \<times> nat \<Rightarrow> mark \<Rightarrow> bool" where
  "line_complete bd l m =
     (case l of (a, b, c) \<Rightarrow>
        cell_at bd a = Some (Mark m) \<and> cell_at bd b = Some (Mark m) \<and> cell_at bd c = Some (Mark m))"

text \<open>
  Cell \<open>i\<close> is an empty cell of the board, and the board with mark \<open>m\<close> placed there
  evaluates to a win for \<open>m\<close>.
\<close>

definition wins_at :: "cell list \<Rightarrow> mark \<Rightarrow> nat \<Rightarrow> bool" where
  "wins_at bd m i =
     (i < length bd \<and> bd ! i = Null \<and> winner (calculateWinner (bd[i := Mark m])) = WMark m)"

text \<open>The corner and the side indices whose cell is empty.\<close>

definition empty_corners :: "cell list \<Rightarrow> nat set" where
  "empty_corners bd = Set.filter (\<lambda>i. cell_at bd i = Some Null) {0, 2, 6, 8}"

definition empty_sides :: "cell list \<Rightarrow> nat set" where
  "empty_sides bd = Set.filter (\<lambda>i. cell_at bd i = Some Null) {1, 3, 5, 7}"

section \<open>Auxiliary facts\<close>

lemma map_filter_append_l: "List.map_filter f (xs @ ys) = List.map_filter f xs @ List.map_filter f ys"
  by (simp add: List.map_filter_def)

lemma truthy_Some: "truthy (Some v) \<longleftrightarrow> v \<noteq> Null"
  by (cases v) auto

lemma truthy_winner_iff: "truthy_winner w \<longleftrightarrow> w \<noteq> WNull"
  by (cases w) auto

lemma availableMoves_snoc:
  "availableMoves (bd @ [c]) = availableMoves bd @ (if c = Null then [length bd] else [])"
  by (simp add: availableMoves_def enumerate_append_eq map_filter_append_l truthy_Some List.map_filter_def)

lemma availableMoves_eq: "availableMoves bd = filter (\<lambda>i. bd ! i = Null) [0..<length bd]"
proof (induction bd rule: rev_induct)
  case Nil
  show ?case by (simp add: availableMoves_def List.map_filter_def)
next
  case (snoc c bd)
  have "filter (\<lambda>i. (bd @ [c]) ! i = Null) [0..<length bd] = filter (\<lambda>i. bd ! i = Null) [0..<length bd]"
    by (rule filter_cong) (auto simp: nth_append)
  with snoc show ?case
    by (simp add: availableMoves_snoc)
qed

lemma try_moves_find: "try_moves bd m ms = List.find (\<lambda>i. winner (calculateWinner (bd[i := Mark m])) = WMark m) ms"
  by (induction ms) (auto simp: Let_def)

lemma find_append_case:
  "List.find P (xs @ ys) = (case List.find P xs of Some x \<Rightarrow> Some x | None \<Rightarrow> List.find P ys)"
  by (induction xs) auto

lemma find_filter_upt_Some:
  assumes "List.find P (filter Q [0..<n]) = Some j"
  shows "j < n \<and> Q j \<and> P j \<and> (\<forall>k<j. \<not> (Q k \<and> P k))"
  using assms
proof (induction n)
  case 0
  then show ?case by simp
next
  case (Suc n)
  show ?case
  proof (cases "List.find P (filter Q [0..<n])")
    case (Some x)
    with Suc.prems have "List.find P (filter Q [0..<n]) = Some j"
      by (simp add: find_append_case)
    with Suc.IH show ?thesis by simp
  next
    case None
    then have none: "\<forall>k<n. \<not> (Q k \<and> P k)"
      by (auto simp: find_None_iff)
    from None Suc.prems have "j = n \<and> Q n \<and> P n"
      by (auto simp: find_append_case split: if_splits)
    with none show ?thesis by simp
  qed
qed

lemma scan_lines_hit:
  "line_complete bd l m \<Longrightarrow> scan_lines bd (l # ls) = Some \<lparr>winner = WMark m, line = line_indices l\<rparr>"
  by (cases l) (simp add: line_complete_def line_indices_def)

lemma scan_lines_miss:
  "\<forall>m. \<not> line_complete bd l m \<Longrightarrow> scan_lines bd (l # ls) = scan_lines bd ls"
proof (cases l)
  case (fields a b c)
  assume miss: "\<forall>m. \<not> line_complete bd l m"
  show ?thesis
  proof (cases "cell_at bd a")
    case None
    with fields show ?thesis by simp
  next
    case (Some v)
    show ?thesis
    proof (cases v)
      case Null
      with Some fields show ?thesis by simp
    next
      case (Mark m)
      with miss fields Some have "\<not> (cell_at bd a = cell_at bd b \<and> cell_at bd b = cell_at bd c)"
        by (auto simp: line_complete_def)
      with Mark Some fields show ?thesis by auto
    qed
  qed
qed

lemma scan_lines_None:
  "scan_lines bd ls = None \<longleftrightarrow> (\<forall>l\<in>set ls. \<forall>m. \<not> line_complete bd l m)"
proof (induction ls)
  case Nil
  show ?case by simp
next
  case (Cons l ls)
  show ?case
  proof (cases "\<exists>m. line_complete bd l m")
    case True
    then show ?thesis by (auto simp: scan_lines_hit)
  next
    case False
    then show ?thesis using Cons.IH by (simp add: scan_lines_miss)
  qed
qed

lemma scan_lines_first:
  assumes "k < length ls" and "line_complete bd (ls ! k) m"
    and "\<forall>j<k. \<forall>m'. \<not> line_complete bd (ls ! j) m'"
  shows "scan_lines bd ls = Some \<lparr>winner = WMark m, line = line_indices (ls ! k)\<rparr>"
  using assms
proof (induction ls arbitrary: k)
  case Nil
  then show ?case by simp
next
  case (Cons l ls)
  show ?case
  proof (cases k)
    case 0
    with Cons.prems show ?thesis by (simp add: scan_lines_hit)
  next
    case (Suc k')
    from Cons.prems(3) Suc have miss: "\<forall>m'. \<not> line_complete bd l m'"
      by (metis nth_Cons_0 zero_less_Suc)
    have later: "\<forall>j<k'. \<forall>m'. \<not> line_complete bd (ls ! j) m'"
    proof (intro allI impI)
      fix j m' assume "j < k'"
      then have "Suc j < k" using Suc by simp
      with Cons.prems(3) have "\<not> line_complete bd ((l # ls) ! Suc j) m'" by blast
      then show "\<not> line_complete bd (ls ! j) m'" by simp
    qed
    from Cons.prems Suc have "k' < length ls" and "line_complete bd (ls ! k') m"
      by simp_all
    with Cons.IH later
    have "scan_lines bd ls = Some \<lparr>winner = WMark m, line = line_indices (ls ! k')\<rparr>"
      by blast
    with miss Suc show ?thesis by (simp add: scan_lines_miss)
  qed
qed

lemma list_all_truthy: "list_all (\<lambda>v. truthy (Some v)) bd \<longleftrightarrow> (\<forall>i<length bd. bd ! i \<noteq> Null)"
  by (simp add: list_all_length truthy_Some)

lemma calculateWinner_win:
  assumes "k < length LINES" and "line_complete bd (LINES ! k) m"
    and "\<forall>j<k. \<forall>m'. \<not> line_complete bd (LINES ! j) m'"
  shows "calculateWinner bd = \<lparr>winner = WMark m, line = line_indices (LINES ! k)\<rparr>"
  using scan_lines_first[OF assms] by (simp add: calculateWinner_def)

lemma calculateWinner_no_line:
  assumes "\<forall>k<length LINES. \<forall>m. \<not> line_complete bd (LINES ! k) m"
  shows "calculateWinner bd =
           (if \<forall>i<length bd. bd ! i \<noteq> Null then \<lparr>winner = WDraw, line = []\<rparr>
            else \<lparr>winner = WNull, line = []\<rparr>)"
proof -
  from assms have "\<forall>l\<in>set LINES. \<forall>m. \<not> line_complete bd l m"
    by (metis in_set_conv_nth)
  then have "scan_lines bd LINES = None"
    by (simp add: scan_lines_None)
  then show ?thesis
    by (simp add: calculateWinner_def list_all_truthy)
qed

lemma try_moves_available_Some:
  assumes "try_moves bd m (availableMoves bd) = Some j"
  shows "wins_at bd m j \<and> (\<forall>k<j. \<not> wins_at bd m k)"
proof -
  let ?P = "\<lambda>i. winner (calculateWinner (bd[i := Mark m])) = WMark m"
  let ?Q = "\<lambda>i. bd ! i = Null"
  from assms have "List.find ?P (filter ?Q [0..<length bd]) = Some j"
    by (simp add: try_moves_find availableMoves_eq)
  then have "j < length bd \<and> ?Q j \<and> ?P j \<and> (\<forall>k<j. \<not> (?Q k \<and> ?P k))"
    by (rule find_filter_upt_Some)
  then show ?thesis by (simp add: wins_at_def)
qed

lemma try_moves_available_None:
  "try_moves bd m (availableMoves bd) = None \<longleftrightarrow> (\<forall>k. \<not> wins_at bd m k)"
  by (auto simp: try_moves_find availableMoves_eq find_None_iff wins_at_def)

lemma set_availableMoves: "set (availableMoves bd) = {i. i < length bd \<and> bd ! i = Null}"
  by (auto simp: availableMoves_eq)

lemma cell_at_Null: "cell_at bd i = Some Null \<longleftrightarrow> i < length bd \<and> bd ! i = Null"
  by (simp add: cell_at_def)

lemma computeAIMove_win_rule:
  "try_moves bd ai (availableMoves bd) = Some j \<Longrightarrow> computeAIMove r bd ai human = Some j"
  by (simp add: computeAIMove_def)

lemma computeAIMove_block_rule:
  "try_moves bd ai (availableMoves bd) = None \<Longrightarrow>
   try_moves bd human (availableMoves bd) = Some j \<Longrightarrow> computeAIMove r bd ai human = Some j"
  by (simp add: computeAIMove_def)

lemma computeAIMove_rest:
  assumes "try_moves bd ai (availableMoves bd) = None"
    and "try_moves bd human (availableMoves bd) = None"
  shows "computeAIMove r bd ai human =
     (if cell_at bd 4 = Some Null then Some 4
      else if filter (\<lambda>i. cell_at bd i = Some Null) [0, 2, 6, 8] \<noteq> []
        then Some (filter (\<lambda>i. cell_at bd i = Some Null) [0, 2, 6, 8] !
                   random_index r (length (filter (\<lambda>i. cell_at bd i = Some Null) [0, 2, 6, 8])))
      else if filter (\<lambda>i. cell_at bd i = Some Null) [1, 3, 5, 7] \<noteq> []
        then Some (filter (\<lambda>i. cell_at bd i = Some Null) [1, 3, 5, 7] !
                   random_index r (length (filter (\<lambda>i. cell_at bd i = Some Null) [1, 3, 5, 7])))
      else if availableMoves bd \<noteq> [] then Some (availableMoves bd ! 0) else None)"
  using assms unfolding computeAIMove_def Let_def by simp

lemma random_pick_in_set: "xs \<noteq> [] \<Longrightarrow> xs ! random_index r (length xs) \<in> set xs"
  by (simp add: random_index_def)

lemma random_pick_eq_in_set:
  "xs \<noteq> [] \<Longrightarrow> j = xs ! random_index r (length xs) \<Longrightarrow> j \<in> set xs"
  by (simp add: random_index_def)

lemma computeAIMove_Some_empty:
  assumes "computeAIMove r bd ai human = Some j"
  shows "j < length bd \<and> bd ! j = Null"
proof (cases "try_moves bd ai (availableMoves bd)")
  case (Some w)
  with assms have "w = j" by (simp add: computeAIMove_win_rule)
  with Some try_moves_available_Some[of bd ai j] show ?thesis by (simp add: wins_at_def)
next
  case None
  note no_win = None
  show ?thesis
  proof (cases "try_moves bd human (availableMoves bd)")
    case (Some w)
    with assms no_win have "w = j" by (simp add: computeAIMove_block_rule)
    with Some try_moves_available_Some[of bd human j] show ?thesis by (simp add: wins_at_def)
  next
    case None
    let ?cs = "filter (\<lambda>i. cell_at bd i = Some Null) [0, 2, 6, 8]"
    let ?ss = "filter (\<lambda>i. cell_at bd i = Some Null) [1, 3, 5, 7]"
    note rest = computeAIMove_rest[OF no_win None, of r]
    consider (center) "cell_at bd 4 = Some Null"
      | (corner) "cell_at bd 4 \<noteq> Some Null" "?cs \<noteq> []"
      | (side) "cell_at bd 4 \<noteq> Some Null" "?cs = []" "?ss \<noteq> []"
      | (fallback) "cell_at bd 4 \<noteq> Some Null" "?cs = []" "?ss = []"
      by blast
    then show ?thesis
    proof cases
      case center
      with rest assms have "j = 4" by simp
      with center show ?thesis by (simp add: cell_at_Null)
    next
      case corner
      with rest assms have "j = ?cs ! random_index r (length ?cs)" by simp
      with corner(2) have "j \<in> set ?cs" by (rule random_pick_eq_in_set)
      then have "cell_at bd j = Some Null" by (simp only: set_filter mem_Collect_eq)
      then show ?thesis by (simp add: cell_at_Null)
    next
      case side
      with rest assms have "j = ?ss ! random_index r (length ?ss)" by simp
      with side(3) have "j \<in> set ?ss" by (rule random_pick_eq_in_set)
      then have "cell_at bd j = Some Null" by (simp only: set_filter mem_Collect_eq)
      then show ?thesis by (simp add: cell_at_Null)
    next
      case fallback
      with rest assms have ne: "availableMoves bd \<noteq> []" and "j = availableMoves bd ! 0"
        by (auto split: if_splits)
      then have "j \<in> set (availableMoves bd)"
        by (metis length_greater_0_conv nth_mem)
      then show ?thesis by (simp add: set_availableMoves)
    qed
  qed
qed

lemma computeAIMove_None_iff:
  "computeAIMove r bd ai human = None \<longleftrightarrow> (\<forall>i<length bd. bd ! i \<noteq> Null)"
proof
  assume none: "computeAIMove r bd ai human = None"
  then have a: "try_moves bd ai (availableMoves bd) = None"
    by (cases "try_moves bd ai (availableMoves bd)") (simp_all add: computeAIMove_win_rule)
  with none have b: "try_moves bd human (availableMoves bd) = None"
    by (cases "try_moves bd human (availableMoves bd)") (simp_all add: computeAIMove_block_rule)
  from none computeAIMove_rest[OF a b, of r] have "availableMoves bd = []"
    by (auto split: if_splits)
  then have "set (availableMoves bd) = {}" by simp
  then show "\<forall>i<length bd. bd ! i \<noteq> Null"
    by (auto simp: set_availableMoves)
next
  assume full: "\<forall>i<length bd. bd ! i \<noteq> Null"
  then have "set (availableMoves bd) = {}"
    by (auto simp: set_availableMoves)
  then have moves: "availableMoves bd = []" by simp
  from full have nc: "\<And>i. cell_at bd i \<noteq> Some Null"
    by (simp add: cell_at_Null)
  show "computeAIMove r bd ai human = None"
    by (simp add: computeAIMove_def moves nc)
qed

section \<open>Properties\<close>
text \<open>
  Claim C1.  On a board of nine cells, \<open>calculateWinner\<close> reports the first line of the
  table \<open>LINES\<close> (three rows, then three columns, then two diagonals) whose three cells
  hold one and the same mark, with that mark and that line, also when a later line is
  complete as well; when no line is complete it reports a draw if no cell is empty, and
  an undecided game otherwise.
\<close>

theorem calculateWinner_first_line:
  assumes "length bd = 9"
  shows "LINES = [(0,1,2), (3,4,5), (6,7,8)] @ [(0,3,6), (1,4,7), (2,5,8)] @ [(0,4,8), (2,4,6)]
    \<and> (\<forall>k m. k < length LINES \<longrightarrow> line_complete bd (LINES ! k) m \<longrightarrow>
           (\<forall>j<k. \<forall>m'. \<not> line_complete bd (LINES ! j) m') \<longrightarrow>
           calculateWinner bd = \<lparr>winner = WMark m, line = line_indices (LINES ! k)\<rparr>)
    \<and> ((\<forall>k<length LINES. \<forall>m. \<not> line_complete bd (LINES ! k) m) \<longrightarrow>
         (\<forall>i<9. bd ! i \<noteq> Null) \<longrightarrow>
         calculateWinner bd = \<lparr>winner = WDraw, line = []\<rparr>)
    \<and> ((\<forall>k<length LINES. \<forall>m. \<not> line_complete bd (LINES ! k) m) \<longrightarrow>
         (\<exists>i<9. bd ! i = Null) \<longrightarrow>
         calculateWinner bd = \<lparr>winner = WNull, line = []\<rparr>)"
proof (intro conjI allI impI)
  show "LINES = [(0,1,2), (3,4,5), (6,7,8)] @ [(0,3,6), (1,4,7), (2,5,8)] @ [(0,4,8), (2,4,6)]"
    by (simp add: LINES_def)
next
  fix k m
  assume "k < length LINES" "line_complete bd (LINES ! k) m"
    "\<forall>j<k. \<forall>m'. \<not> line_complete bd (LINES ! j) m'"
  then show "calculateWinner bd = \<lparr>winner = WMark m, line = line_indices (LINES ! k)\<rparr>"
    by (rule calculateWinner_win)
next
  assume "\<forall>k<length LINES. \<forall>m. \<not> line_complete bd (LINES ! k) m" "\<forall>i<9. bd ! i \<noteq> Null"
  with assms show "calculateWinner bd = \<lparr>winner = WDraw, line = []\<rparr>"
    by (simp add: calculateWinner_no_line)
next
  assume "\<forall>k<length LINES. \<forall>m. \<not> line_complete bd (LINES ! k) m" "\<exists>i<9. bd ! i = Null"
  with assms show "calculateWinner bd = \<lparr>winner = WNull, line = []\<rparr>"
    by (simp add: calculateWinner_no_line)
qed

text \<open>
  An instance: the top row and the left column are both complete for X; the row, which
  comes first in the table, is the line reported.
\<close>

theorem calculateWinner_first_line_witness:
  "length [Mark MX, Mark MX, Mark MX, Mark MX, Mark MO, Mark MO, Mark MX, Mark MO, Mark MO] = 9
   \<and> line_complete [Mark MX, Mark MX, Mark MX, Mark MX, Mark MO, Mark MO, Mark MX, Mark MO, Mark MO]
         (LINES ! 0) MX
   \<and> line_complete [Mark MX, Mark MX, Mark MX, Mark MX, Mark MO, Mark MO, Mark MX, Mark MO, Mark MO]
         (LINES ! 3) MX
   \<and> calculateWinner [Mark MX, Mark MX, Mark MX, Mark MX, Mark MO, Mark MO, Mark MX, Mark MO, Mark MO]
       = \<lparr>winner = WMark MX, line = [0, 1, 2]\<rparr>"
proof -
  let ?b = "[Mark MX, Mark MX, Mark MX, Mark MX, Mark MO, Mark MO, Mark MX, Mark MO, Mark MO]"
  have len: "length ?b = 9" by simp
  have k: "0 < length LINES" by (simp add: LINES_def)
  have c0: "line_complete ?b (LINES ! 0) MX" by code_simp
  have c3: "line_complete ?b (LINES ! 3) MX" by code_simp
  have li: "line_indices (LINES ! 0) = [0, 1, 2]" by code_simp
  from calculateWinner_first_line[OF len]
  have "0 < length LINES \<longrightarrow> line_complete ?b (LINES ! 0) MX \<longrightarrow>
        (\<forall>j<0. \<forall>m'. \<not> line_complete ?b (LINES ! j) m') \<longrightarrow>
        calculateWinner ?b = \<lparr>winner = WMark MX, line = line_indices (LINES ! 0)\<rparr>"
    by blast
  with k c0 li have "calculateWinner ?b = \<lparr>winner = WMark MX, line = [0, 1, 2]\<rparr>"
    by simp
  with len c0 c3 show ?thesis by blast
qed

text \<open>
  Claim C2.  Whenever some empty cell gives the advisor an immediate win,
  \<open>computeAIMove\<close> returns the first such cell in ascending index order.  Nothing is
  assumed about the opponent, so this holds also when a blocking move is available.
\<close>

theorem computeAIMove_win_priority:
  assumes "wins_at bd ai i"
  shows "\<exists>j. computeAIMove r bd ai human = Some j \<and> wins_at bd ai j
             \<and> (\<forall>k<j. \<not> wins_at bd ai k)"
proof (cases "try_moves bd ai (availableMoves bd)")
  case None
  with assms show ?thesis by (simp add: try_moves_available_None)
next
  case (Some j)
  then have "computeAIMove r bd ai human = Some j" by (rule computeAIMove_win_rule)
  with try_moves_available_Some[OF Some] show ?thesis by blast
qed

text \<open>
  An instance: O can win at cell 2 and could block X at cell 5; the advisor takes 2.
\<close>

theorem computeAIMove_win_priority_witness:
  "wins_at [Mark MO, Mark MO, Null, Mark MX, Mark MX, Null, Null, Null, Null] MO 2
   \<and> wins_at [Mark MO, Mark MO, Null, Mark MX, Mark MX, Null, Null, Null, Null] MX 5
   \<and> computeAIMove 0 [Mark MO, Mark MO, Null, Mark MX, Mark MX, Null, Null, Null, Null] MO MX
       = Some 2"
proof -
  let ?b = "[Mark MO, Mark MO, Null, Mark MX, Mark MX, Null, Null, Null, Null]"
  have w: "wins_at ?b MO 2" by code_simp
  have blk: "wins_at ?b MX 5" by code_simp
  have n0: "\<not> wins_at ?b MO 0" and n1: "\<not> wins_at ?b MO 1" by code_simp+
  from computeAIMove_win_priority[OF w, of 0 MX]
  obtain j where j: "computeAIMove 0 ?b MO MX = Some j" "wins_at ?b MO j"
    "\<forall>k<j. \<not> wins_at ?b MO k" by blast
  from j(3) w have "\<not> 2 < j" by blast
  moreover from j(2) n0 have "j \<noteq> 0" by metis
  moreover from j(2) n1 have "j \<noteq> 1" by metis
  ultimately have "j = 2" by arith
  with j(1) w blk show ?thesis by simp
qed

text \<open>
  Claim C3.  When no empty cell gives the advisor an immediate win and some empty cell
  gives the opponent one, \<open>computeAIMove\<close> returns the first cell, in ascending index
  order, at which the opponent would win.  Once the advisor has played there the cell is
  no longer available, and no line through it can be complete for the opponent.
\<close>

theorem computeAIMove_block:
  assumes "\<forall>i. \<not> wins_at bd ai i" and "wins_at bd human i" and "ai \<noteq> human"
  shows "\<exists>j. computeAIMove r bd ai human = Some j \<and> wins_at bd human j
             \<and> (\<forall>k<j. \<not> wins_at bd human k)
             \<and> j \<notin> set (availableMoves (bd[j := Mark ai]))
             \<and> (\<forall>l\<in>set LINES. j \<in> set (line_indices l) \<longrightarrow>
                    \<not> line_complete (bd[j := Mark ai]) l human)"
proof -
  from assms(1) have nowin: "try_moves bd ai (availableMoves bd) = None"
    by (simp add: try_moves_available_None)
  from assms(2) obtain j where blk: "try_moves bd human (availableMoves bd) = Some j"
    by (cases "try_moves bd human (availableMoves bd)") (auto simp: try_moves_available_None)
  from nowin blk have res: "computeAIMove r bd ai human = Some j"
    by (rule computeAIMove_block_rule)
  from try_moves_available_Some[OF blk]
  have first: "wins_at bd human j" "\<forall>k<j. \<not> wins_at bd human k" by simp_all
  then have jlen: "j < length bd" by (simp add: wins_at_def)
  then have taken: "j \<notin> set (availableMoves (bd[j := Mark ai]))"
    by (simp add: set_availableMoves)
  have lines: "\<forall>l\<in>set LINES. j \<in> set (line_indices l) \<longrightarrow>
                 \<not> line_complete (bd[j := Mark ai]) l human"
  proof (intro ballI impI)
    fix l assume "l \<in> set LINES" "j \<in> set (line_indices l)"
    obtain a b c where l: "l = (a, b, c)" by (cases l)
    from jlen assms(3) have "cell_at (bd[j := Mark ai]) j \<noteq> Some (Mark human)"
      by (simp add: cell_at_def)
    with \<open>j \<in> set (line_indices l)\<close> l show "\<not> line_complete (bd[j := Mark ai]) l human"
      by (auto simp: line_indices_def line_complete_def)
  qed
  from res first taken lines show ?thesis by blast
qed

text \<open>An instance: X holds cells 0 and 1, O the center; O has no win and blocks.\<close>

theorem computeAIMove_block_witness:
  "(\<forall>i. \<not> wins_at [Mark MX, Mark MX, Null, Null, Mark MO, Null, Null, Null, Null] MO i)
   \<and> wins_at [Mark MX, Mark MX, Null, Null, Mark MO, Null, Null, Null, Null] MX 2
   \<and> MO \<noteq> MX
   \<and> (\<exists>j. computeAIMove 0 [Mark MX, Mark MX, Null, Null, Mark MO, Null, Null, Null, Null] MO MX
            = Some j
          \<and> wins_at [Mark MX, Mark MX, Null, Null, Mark MO, Null, Null, Null, Null] MX j)"
proof -
  let ?b = "[Mark MX, Mark MX, Null, Null, Mark MO, Null, Null, Null, Null]"
  have "try_moves ?b MO (availableMoves ?b) = None" by code_simp
  then have h1: "\<forall>i. \<not> wins_at ?b MO i" by (rule iffD1[OF try_moves_available_None])
  have h2: "wins_at ?b MX 2" by code_simp
  have h3: "MO \<noteq> MX" by simp
  from computeAIMove_block[OF h1 h2 h3, of 0]
  have "\<exists>j. computeAIMove 0 ?b MO MX = Some j \<and> wins_at ?b MX j" by blast
  with h1 h2 h3 show ?thesis by blast
qed

text \<open>
  Claim C4.  On a board of nine cells, \<open>computeAIMove\<close> returns the index of an empty
  cell of that board whenever the board has an empty cell, and it returns \<^verbatim>\<open>null\<close>
  exactly when the board has none.
\<close>

theorem computeAIMove_empty_cell_or_none:
  assumes "length bd = 9"
  shows "((\<exists>i<9. bd ! i = Null) \<longrightarrow>
            (\<exists>j<9. computeAIMove r bd ai human = Some j \<and> bd ! j = Null))
       \<and> (computeAIMove r bd ai human = None \<longleftrightarrow> \<not> (\<exists>i<9. bd ! i = Null))"
proof -
  have none: "computeAIMove r bd ai human = None \<longleftrightarrow> \<not> (\<exists>i<9. bd ! i = Null)"
    using assms by (simp add: computeAIMove_None_iff)
  have some: "\<exists>j<9. computeAIMove r bd ai human = Some j \<and> bd ! j = Null"
    if "\<exists>i<9. bd ! i = Null"
  proof -
    from that none obtain j where j: "computeAIMove r bd ai human = Some j"
      by (cases "computeAIMove r bd ai human") auto
    from computeAIMove_Some_empty[OF j] assms have "j < 9 \<and> bd ! j = Null" by simp
    with j show ?thesis by blast
  qed
  from none some show ?thesis by blast
qed

text \<open>
  Two instances: a full board without a winner, where there is no move, and the same
  board with its last cell empty.
\<close>

theorem computeAIMove_empty_cell_or_none_witness:
  "length [Mark MX, Mark MO, Mark MX, Mark MX, Mark MO, Mark MO, Mark MO, Mark MX, Mark MX] = 9
   \<and> \<not> (\<exists>i<9. [Mark MX, Mark MO, Mark MX, Mark MX, Mark MO, Mark MO, Mark MO, Mark MX, Mark MX] ! i
               = Null)
   \<and> computeAIMove 0 [Mark MX, Mark MO, Mark MX, Mark MX, Mark MO, Mark MO, Mark MO, Mark MX, Mark MX]
        MO MX = None
   \<and> length [Mark MX, Mark MO, Mark MX, Mark MX, Mark MO, Mark MO, Mark MO, Mark MX, Null] = 9
   \<and> (\<exists>i<9. [Mark MX, Mark MO, Mark MX, Mark MX, Mark MO, Mark MO, Mark MO, Mark MX, Null] ! i = Null)
   \<and> (\<exists>j<9. computeAIMove 0 [Mark MX, Mark MO, Mark MX, Mark MX, Mark MO, Mark MO, Mark MO, Mark MX, Null]
             MO MX = Some j
           \<and> [Mark MX, Mark MO, Mark MX, Mark MX, Mark MO, Mark MO, Mark MO, Mark MX, Null] ! j = Null)"
proof -
  let ?full = "[Mark MX, Mark MO, Mark MX, Mark MX, Mark MO, Mark MO, Mark MO, Mark MX, Mark MX]"
  let ?one = "[Mark MX, Mark MO, Mark MX, Mark MX, Mark MO, Mark MO, Mark MO, Mark MX, Null]"
  have lf: "length ?full = 9" and lo: "length ?one = 9" by simp_all
  have "\<forall>i<length ?full. ?full ! i \<noteq> Null"
    by (simp only: list_all_truthy[symmetric]) simp
  then have nf: "\<not> (\<exists>i<9. ?full ! i = Null)" by simp
  have eo: "\<exists>i<9. ?one ! i = Null" by (rule exI[of _ 8]) simp
  from computeAIMove_empty_cell_or_none[OF lf, of 0 MO MX] nf
  have a: "computeAIMove 0 ?full MO MX = None" by blast
  from computeAIMove_empty_cell_or_none[OF lo, of 0 MO MX] eo
  have b: "\<exists>j<9. computeAIMove 0 ?one MO MX = Some j \<and> ?one ! j = Null" by blast
  from lf nf a lo eo b show ?thesis by blast
qed

text \<open>
  Claim C5.  When neither the advisor nor the opponent has an immediate win and cell 4
  is empty, \<open>computeAIMove\<close> returns 4; on the empty board, with advisor O and opponent
  X, it returns 4.
\<close>

theorem computeAIMove_center:
  "((\<forall>i. \<not> wins_at bd ai i) \<longrightarrow> (\<forall>i. \<not> wins_at bd human i) \<longrightarrow> cell_at bd 4 = Some Null
      \<longrightarrow> computeAIMove r bd ai human = Some 4)
   \<and> computeAIMove r initialBoard MO MX = Some 4"
proof (intro conjI impI)
  assume "\<forall>i. \<not> wins_at bd ai i" "\<forall>i. \<not> wins_at bd human i" "cell_at bd 4 = Some Null"
  then show "computeAIMove r bd ai human = Some 4"
    by (simp add: computeAIMove_rest try_moves_available_None)
next
  have a: "try_moves initialBoard MO (availableMoves initialBoard) = None" by code_simp
  have b: "try_moves initialBoard MX (availableMoves initialBoard) = None" by code_simp
  have c: "cell_at initialBoard 4 = Some Null" by code_simp
  from c show "computeAIMove r initialBoard MO MX = Some 4"
    by (simp add: computeAIMove_rest[OF a b])
qed

text \<open>An instance: X has taken a corner, and O answers in the center.\<close>

theorem computeAIMove_center_witness:
  "(\<forall>i. \<not> wins_at [Mark MX, Null, Null, Null, Null, Null, Null, Null, Null] MO i)
   \<and> (\<forall>i. \<not> wins_at [Mark MX, Null, Null, Null, Null, Null, Null, Null, Null] MX i)
   \<and> cell_at [Mark MX, Null, Null, Null, Null, Null, Null, Null, Null] 4 = Some Null
   \<and> computeAIMove 0 [Mark MX, Null, Null, Null, Null, Null, Null, Null, Null] MO MX = Some 4"
proof -
  let ?b = "[Mark MX, Null, Null, Null, Null, Null, Null, Null, Null]"
  have "try_moves ?b MO (availableMoves ?b) = None" by code_simp
  then have h1: "\<forall>i. \<not> wins_at ?b MO i" by (rule iffD1[OF try_moves_available_None])
  have "try_moves ?b MX (availableMoves ?b) = None" by code_simp
  then have h2: "\<forall>i. \<not> wins_at ?b MX i" by (rule iffD1[OF try_moves_available_None])
  have h3: "cell_at ?b 4 = Some Null" by code_simp
  from computeAIMove_center[of ?b MO MX 0] h1 h2 h3
  have "computeAIMove 0 ?b MO MX = Some 4" by blast
  with h1 h2 h3 show ?thesis by blast
qed

lemma empty_corners_set:
  "empty_corners bd = set (filter (\<lambda>i. cell_at bd i = Some Null) [0, 2, 6, 8])"
proof -
  have "set [0, 2, 6, 8 :: nat] = {0, 2, 6, 8}" by simp
  then show ?thesis unfolding empty_corners_def Set.filter_eq set_filter by (rule ssubst) (rule refl)
qed

lemma empty_sides_set:
  "empty_sides bd = set (filter (\<lambda>i. cell_at bd i = Some Null) [1, 3, 5, 7])"
proof -
  have "set [1, 3, 5, 7 :: nat] = {1, 3, 5, 7}" by simp
  then show ?thesis unfolding empty_sides_def Set.filter_eq set_filter by (rule ssubst) (rule refl)
qed

text \<open>
  Claim C6.  On a board of nine cells where neither mark has an immediate win and the
  center is occupied: if some corner is empty, \<open>computeAIMove\<close> returns an empty corner,
  whatever the random draw; a side index is returned only when no corner is empty, and
  it is then an empty side; and when no corner but some side is empty, an empty side is
  returned.
\<close>

theorem computeAIMove_corner_before_side:
  assumes "length bd = 9"
    and "\<forall>i. \<not> wins_at bd ai i" and "\<forall>i. \<not> wins_at bd human i"
    and "bd ! 4 \<noteq> Null"
  shows "(empty_corners bd \<noteq> {} \<longrightarrow>
            (\<exists>j\<in>empty_corners bd. computeAIMove r bd ai human = Some j))
       \<and> (\<forall>j\<in>{1, 3, 5, 7}. computeAIMove r bd ai human = Some j \<longrightarrow>
            empty_corners bd = {} \<and> j \<in> empty_sides bd)
       \<and> (empty_corners bd = {} \<longrightarrow> empty_sides bd \<noteq> {} \<longrightarrow>
            (\<exists>j\<in>empty_sides bd. computeAIMove r bd ai human = Some j))"
proof -
  let ?cs = "filter (\<lambda>i. cell_at bd i = Some Null) [0, 2, 6, 8]"
  let ?ss = "filter (\<lambda>i. cell_at bd i = Some Null) [1, 3, 5, 7]"
  from assms(2) have a: "try_moves bd ai (availableMoves bd) = None"
    by (simp add: try_moves_available_None)
  from assms(3) have b: "try_moves bd human (availableMoves bd) = None"
    by (simp add: try_moves_available_None)
  from assms(4) have center: "cell_at bd 4 \<noteq> Some Null"
    by (simp add: cell_at_Null)
  note rest = computeAIMove_rest[OF a b, of r]
  have corner: "\<exists>j\<in>empty_corners bd. computeAIMove r bd ai human = Some j"
    if "empty_corners bd \<noteq> {}"
  proof -
    from that have ne: "?cs \<noteq> []" unfolding empty_corners_set by (rule contrapos_nn) simp
    with center rest
    have "computeAIMove r bd ai human = Some (?cs ! random_index r (length ?cs))" by simp
    moreover from ne have "?cs ! random_index r (length ?cs) \<in> set ?cs"
      by (rule random_pick_in_set)
    ultimately show ?thesis by (simp only: empty_corners_set) blast
  qed
  have side: "\<exists>j\<in>empty_sides bd. computeAIMove r bd ai human = Some j"
    if "empty_corners bd = {}" "empty_sides bd \<noteq> {}"
  proof -
    from that(1) have nc: "?cs = []" unfolding empty_corners_set by (rule iffD1[OF set_empty])
    from that(2) have ne: "?ss \<noteq> []" unfolding empty_sides_set by (rule contrapos_nn) simp
    from center nc ne rest
    have "computeAIMove r bd ai human = Some (?ss ! random_index r (length ?ss))" by simp
    moreover from ne have "?ss ! random_index r (length ?ss) \<in> set ?ss"
      by (rule random_pick_in_set)
    ultimately show ?thesis by (simp only: empty_sides_set) blast
  qed
  have only: "empty_corners bd = {} \<and> j \<in> empty_sides bd"
    if "j \<in> {1, 3, 5, 7}" "computeAIMove r bd ai human = Some j" for j
  proof -
    have "empty_corners bd = {}"
    proof (rule ccontr)
      assume "empty_corners bd \<noteq> {}"
      from corner[OF this] that(2) have "j \<in> empty_corners bd" by auto
      then have "j \<in> {0, 2, 6, 8}" by (auto simp: empty_corners_def)
      with that(1) show False by auto
    qed
    moreover from computeAIMove_Some_empty[OF that(2)] have "cell_at bd j = Some Null"
      by (simp add: cell_at_Null)
    with that(1) have "j \<in> empty_sides bd" by (simp add: empty_sides_def)
    ultimately show ?thesis by simp
  qed
  from corner side only show ?thesis by blast
qed

text \<open>
  Two instances: a board whose only empty cells are the sides 1 and 7, and the board
  with only the center taken, where all four corners are candidates.
\<close>

theorem computeAIMove_corner_before_side_witness:
  "length [Mark MX, Null, Mark MO, Mark MO, Mark MX, Mark MX, Mark MX, Null, Mark MO] = 9
   \<and> (\<forall>i. \<not> wins_at [Mark MX, Null, Mark MO, Mark MO, Mark MX, Mark MX, Mark MX, Null, Mark MO] MO i)
   \<and> (\<forall>i. \<not> wins_at [Mark MX, Null, Mark MO, Mark MO, Mark MX, Mark MX, Mark MX, Null, Mark MO] MX i)
   \<and> [Mark MX, Null, Mark MO, Mark MO, Mark MX, Mark MX, Mark MX, Null, Mark MO] ! 4 \<noteq> Null
   \<and> empty_corners [Mark MX, Null, Mark MO, Mark MO, Mark MX, Mark MX, Mark MX, Null, Mark MO] = {}
   \<and> empty_sides [Mark MX, Null, Mark MO, Mark MO, Mark MX, Mark MX, Mark MX, Null, Mark MO] = {1, 7}
   \<and> (\<exists>j\<in>{1, 7}.
         computeAIMove 1 [Mark MX, Null, Mark MO, Mark MO, Mark MX, Mark MX, Mark MX, Null, Mark MO] MO MX
           = Some j)
   \<and> length [Null, Null, Null, Null, Mark MX, Null, Null, Null, Null] = 9
   \<and> (\<forall>i. \<not> wins_at [Null, Null, Null, Null, Mark MX, Null, Null, Null, Null] MO i)
   \<and> (\<forall>i. \<not> wins_at [Null, Null, Null, Null, Mark MX, Null, Null, Null, Null] MX i)
   \<and> [Null, Null, Null, Null, Mark MX, Null, Null, Null, Null] ! 4 \<noteq> Null
   \<and> empty_corners [Null, Null, Null, Null, Mark MX, Null, Null, Null, Null] = {0, 2, 6, 8}
   \<and> (\<exists>j\<in>{0, 2, 6, 8}.
         computeAIMove 2 [Null, Null, Null, Null, Mark MX, Null, Null, Null, Null] MO MX = Some j)"
proof -
  let ?b = "[Mark MX, Null, Mark MO, Mark MO, Mark MX, Mark MX, Mark MX, Null, Mark MO]"
  let ?c = "[Null, Null, Null, Null, Mark MX, Null, Null, Null, Null]"
  have len: "length ?b = 9" by simp
  have "try_moves ?b MO (availableMoves ?b) = None" by code_simp
  then have h1: "\<forall>i. \<not> wins_at ?b MO i" by (rule iffD1[OF try_moves_available_None])
  have "try_moves ?b MX (availableMoves ?b) = None" by code_simp
  then have h2: "\<forall>i. \<not> wins_at ?b MX i" by (rule iffD1[OF try_moves_available_None])
  have h3: "?b ! 4 \<noteq> Null" by simp
  have ec: "empty_corners ?b = {}" unfolding empty_corners_set by (simp add: cell_at_def)
  have es: "empty_sides ?b = {1, 7}" unfolding empty_sides_set by (simp add: cell_at_def)
  from computeAIMove_corner_before_side[OF len h1 h2 h3, of 1] ec es
  have r1: "\<exists>j\<in>{1, 7}. computeAIMove 1 ?b MO MX = Some j" by auto
  have len': "length ?c = 9" by simp
  have "try_moves ?c MO (availableMoves ?c) = None" by code_simp
  then have g1: "\<forall>i. \<not> wins_at ?c MO i" by (rule iffD1[OF try_moves_available_None])
  have "try_moves ?c MX (availableMoves ?c) = None" by code_simp
  then have g2: "\<forall>i. \<not> wins_at ?c MX i" by (rule iffD1[OF try_moves_available_None])
  have g3: "?c ! 4 \<noteq> Null" by simp
  have gc: "empty_corners ?c = {0, 2, 6, 8}" unfolding empty_corners_set by (simp add: cell_at_def)
  from computeAIMove_corner_before_side[OF len' g1 g2 g3, of 2] gc
  have r2: "\<exists>j\<in>{0, 2, 6, 8}. computeAIMove 2 ?c MO MX = Some j" by auto
  from len h1 h2 h3 ec es r1 len' g1 g2 g3 gc r2 show ?thesis by blast
qed

text \<open>
  On the board X O X / O X O / - - - the opponent X would win at cell 6 (the diagonal
  2, 4, 6), so the block rule decides the move: the advisor O plays 6 whatever the
  random draw.
\<close>

lemma scenario_block_at_6:
  "wins_at [Mark MX, Mark MO, Mark MX, Mark MO, Mark MX, Mark MO, Null, Null, Null] MX 6
   \<and> computeAIMove r [Mark MX, Mark MO, Mark MX, Mark MO, Mark MX, Mark MO, Null, Null, Null] MO MX
       = Some 6"
proof -
  let ?b = "[Mark MX, Mark MO, Mark MX, Mark MO, Mark MX, Mark MO, Null, Null, Null]"
  have w: "wins_at ?b MX 6" by code_simp
  have a: "try_moves ?b MO (availableMoves ?b) = None" by code_simp
  have b: "try_moves ?b MX (availableMoves ?b) = Some 6" by code_simp
  from a b have "computeAIMove r ?b MO MX = Some 6" by (rule computeAIMove_block_rule)
  with w show ?thesis by simp
qed

text \<open>
  Claim C8.  On the board X O X / O X O / - - -, with advisor O and opponent X,
  \<open>computeAIMove\<close> returns one of the corners 6 and 8, and not the side 7.
\<close>

theorem computeAIMove_scenario_corner:
  "\<exists>j. computeAIMove r [Mark MX, Mark MO, Mark MX, Mark MO, Mark MX, Mark MO, Null, Null, Null] MO MX
          = Some j \<and> j \<in> {6, 8} \<and> j \<noteq> 7"
  using scenario_block_at_6[of r] by simp

text \<open>
  Claim C9.  On the board X X - / - O - / - - -, with advisor O and opponent X,
  \<open>computeAIMove\<close> returns exactly 2: O has no immediate win, and 2 is the first cell
  at which X would win.
\<close>

theorem computeAIMove_scenario_block:
  "computeAIMove r [Mark MX, Mark MX, Null, Null, Mark MO, Null, Null, Null, Null] MO MX = Some 2
   \<and> (\<forall>i. \<not> wins_at [Mark MX, Mark MX, Null, Null, Mark MO, Null, Null, Null, Null] MO i)
   \<and> wins_at [Mark MX, Mark MX, Null, Null, Mark MO, Null, Null, Null, Null] MX 2
   \<and> (\<forall>k<2. \<not> wins_at [Mark MX, Mark MX, Null, Null, Mark MO, Null, Null, Null, Null] MX k)"
proof -
  let ?b = "[Mark MX, Mark MX, Null, Null, Mark MO, Null, Null, Null, Null]"
  have a: "try_moves ?b MO (availableMoves ?b) = None" by code_simp
  have b: "try_moves ?b MX (availableMoves ?b) = Some 2" by code_simp
  from a b have "computeAIMove r ?b MO MX = Some 2" by (rule computeAIMove_block_rule)
  moreover from a have "\<forall>i. \<not> wins_at ?b MO i" by (rule iffD1[OF try_moves_available_None])
  moreover note try_moves_available_Some[OF b]
  ultimately show ?thesis by simp
qed

text \<open>The same board with the random draw fixed.\<close>

theorem computeAIMove_scenario_block_witness:
  "computeAIMove 0 [Mark MX, Mark MX, Null, Null, Mark MO, Null, Null, Null, Null] MO MX = Some 2
   \<and> wins_at [Mark MX, Mark MX, Null, Null, Mark MO, Null, Null, Null, Null] MX 2
   \<and> \<not> wins_at [Mark MX, Mark MX, Null, Null, Mark MO, Null, Null, Null, Null] MO 2"
  using computeAIMove_scenario_block[of 0] by blast

text \<open>
  Claim C7 says that \<open>calculateWinner\<close> rejects an input whose number of cells is not
  nine.  It does not: the function has no check of the length, and on inputs of 0, 3
  and 10 cells it returns a draw, a win for X and a win for O.
\<close>

theorem calculateWinner_no_shape_check:
  "length ([] :: cell list) \<noteq> 9
   \<and> calculateWinner [] = \<lparr>winner = WDraw, line = []\<rparr>
   \<and> length [Mark MX, Mark MX, Mark MX] \<noteq> 9
   \<and> calculateWinner [Mark MX, Mark MX, Mark MX] = \<lparr>winner = WMark MX, line = [0, 1, 2]\<rparr>
   \<and> length [Mark MX, Mark MO, Mark MX, Null, Mark MO, Null, Mark MX, Mark MO, Null, Null] \<noteq> 9
   \<and> calculateWinner [Mark MX, Mark MO, Mark MX, Null, Mark MO, Null, Mark MX, Mark MO, Null, Null]
       = \<lparr>winner = WMark MO, line = [1, 4, 7]\<rparr>"
  by code_simp

text \<open>
  Claim C7, as amended.  On an input whose number of cells is not nine,
  \<open>calculateWinner\<close> still returns an outcome, by the same rule as on nine cells: the
  first line of \<open>LINES\<close> that is complete wins, where a line is complete only if its
  three indices all lie inside the input; with no complete line the outcome is a draw if
  no cell of the input is empty (so also on the input without cells), and undecided
  otherwise.
\<close>

theorem calculateWinner_any_length:
  assumes "length bd \<noteq> 9"
  shows "(\<forall>k m. k < length LINES \<longrightarrow> line_complete bd (LINES ! k) m \<longrightarrow>
           (\<forall>j<k. \<forall>m'. \<not> line_complete bd (LINES ! j) m') \<longrightarrow>
           calculateWinner bd = \<lparr>winner = WMark m, line = line_indices (LINES ! k)\<rparr>)
    \<and> ((\<forall>k<length LINES. \<forall>m. \<not> line_complete bd (LINES ! k) m) \<longrightarrow>
         (\<forall>i<length bd. bd ! i \<noteq> Null) \<longrightarrow>
         calculateWinner bd = \<lparr>winner = WDraw, line = []\<rparr>)
    \<and> ((\<forall>k<length LINES. \<forall>m. \<not> line_complete bd (LINES ! k) m) \<longrightarrow>
         (\<exists>i<length bd. bd ! i = Null) \<longrightarrow>
         calculateWinner bd = \<lparr>winner = WNull, line = []\<rparr>)
    \<and> (\<forall>l m. line_complete bd l m \<longrightarrow> (\<forall>i\<in>set (line_indices l). i < length bd))"
proof (intro conjI allI impI ballI)
  fix k m
  assume "k < length LINES" "line_complete bd (LINES ! k) m"
    "\<forall>j<k. \<forall>m'. \<not> line_complete bd (LINES ! j) m'"
  then show "calculateWinner bd = \<lparr>winner = WMark m, line = line_indices (LINES ! k)\<rparr>"
    by (rule calculateWinner_win)
next
  assume "\<forall>k<length LINES. \<forall>m. \<not> line_complete bd (LINES ! k) m" "\<forall>i<length bd. bd ! i \<noteq> Null"
  then show "calculateWinner bd = \<lparr>winner = WDraw, line = []\<rparr>"
    by (simp add: calculateWinner_no_line)
next
  assume "\<forall>k<length LINES. \<forall>m. \<not> line_complete bd (LINES ! k) m" "\<exists>i<length bd. bd ! i = Null"
  then show "calculateWinner bd = \<lparr>winner = WNull, line = []\<rparr>"
    by (simp add: calculateWinner_no_line)
next
  fix l m i
  assume "line_complete bd l m" "i \<in> set (line_indices l)"
  then show "i < length bd"
    by (cases l) (auto simp: line_complete_def line_indices_def cell_at_def split: if_splits)
qed

text \<open>An instance: four filled cells, no line inside them, hence a draw.\<close>

theorem calculateWinner_any_length_witness:
  "length [Mark MX, Mark MX, Mark MO, Mark MO] \<noteq> 9
   \<and> scan_lines [Mark MX, Mark MX, Mark MO, Mark MO] LINES = None
   \<and> list_all (\<lambda>v. truthy (Some v)) [Mark MX, Mark MX, Mark MO, Mark MO]
   \<and> calculateWinner [Mark MX, Mark MX, Mark MO, Mark MO] = \<lparr>winner = WDraw, line = []\<rparr>"
proof -
  let ?b = "[Mark MX, Mark MX, Mark MO, Mark MO]"
  have len: "length ?b \<noteq> 9" by simp
  have scan: "scan_lines ?b LINES = None" by code_simp
  then have "\<forall>l\<in>set LINES. \<forall>m. \<not> line_complete ?b l m"
    by (rule iffD1[OF scan_lines_None])
  then have nl: "\<forall>k<length LINES. \<forall>m. \<not> line_complete ?b (LINES ! k) m"
    by (simp only: all_set_conv_all_nth)
  have filled: "list_all (\<lambda>v. truthy (Some v)) ?b" by simp
  then have full: "\<forall>i<length ?b. ?b ! i \<noteq> Null" by (rule iffD1[OF list_all_truthy])
  from calculateWinner_any_length[OF len] nl full
  have "calculateWinner ?b = \<lparr>winner = WDraw, line = []\<rparr>" by blast
  with len scan filled show ?thesis by blast
qed

text \<open>
  How each event changes the board: a reset installs the initial board; any other event
  leaves the board as it is or writes a mark into one cell that was empty.
\<close>

lemma length_initialBoard: "length initialBoard = 9"
  by (simp add: initialBoard_def)

lemma board_resetBoard: "board (resetBoard s) = initialBoard"
  by (simp add: resetBoard_def)

lemma fire_reset:
  assumes "fire e s = Some s'" and "is_reset e"
  shows "board s' = initialBoard"
  using assms
  by (cases e) (auto simp: newMatch_def resetScores_def changeMode_def board_resetBoard)

lemma handleSquareClick_board:
  assumes "i < length (board s)"
  shows "board (handleSquareClick i s) = board s
       \<or> (board s ! i = Null
          \<and> board (handleSquareClick i s) = (board s)[i := Mark (if xIsNext s then MX else MO)])"
  using assms by (auto simp: handleSquareClick_def cell_at_def truthy_Some truthy_winner_iff)

lemma handleSquareClick_ignored:
  assumes "i < length (board s)"
    and "board s ! i \<noteq> Null \<or> winner (calculateWinner (board s)) \<noteq> WNull"
  shows "handleSquareClick i s = s"
  using assms by (auto simp: handleSquareClick_def cell_at_def truthy_Some truthy_winner_iff)

lemma aiTimer_board:
  "board (aiTimer r s) = board s
   \<or> (\<exists>i<length (board s). board s ! i = Null \<and> board (aiTimer r s) = (board s)[i := Mark MO])"
proof (cases "computeAIMove r (board s) MO MX")
  case None
  then show ?thesis by (simp add: aiTimer_def)
next
  case (Some move)
  from computeAIMove_Some_empty[OF Some] Some show ?thesis
    by (auto simp: aiTimer_def)
qed

lemma fire_board:
  assumes "fire e s = Some s'" and "\<not> is_reset e"
  shows "board s' = board s
       \<or> (\<exists>i<length (board s). \<exists>m. board s ! i = Null \<and> board s' = (board s)[i := Mark m])"
proof (cases e)
  case (Click i)
  with assms(1) have "i < length (board s)" and "s' = handleSquareClick i s"
    by (auto split: if_splits)
  with handleSquareClick_board[of i s] show ?thesis by blast
next
  case AIEffect
  with assms(1) show ?thesis by (auto simp: aiEffect_def)
next
  case (AITimer r)
  with assms(1) have "s' = aiTimer r s" by (auto split: if_splits)
  with aiTimer_board[of r s] show ?thesis by blast
next
  case (ScoreTimer w)
  with assms(1) show ?thesis by (auto simp: scoreTimer_def split: if_splits)
next
  case NewMatch
  with assms(2) show ?thesis by simp
next
  case ResetScores
  with assms(2) show ?thesis by simp
next
  case (ChangeMode m)
  with assms(2) show ?thesis by simp
qed

lemma fire_length:
  assumes "fire e s = Some s'" and "length (board s) = 9"
  shows "length (board s') = 9"
proof (cases "is_reset e")
  case True
  with assms(1) show ?thesis by (simp add: fire_reset length_initialBoard)
next
  case False
  from fire_board[OF assms(1) False] assms(2) show ?thesis by auto
qed

lemma run_length:
  "run es s = Some s' \<Longrightarrow> length (board s) = 9 \<Longrightarrow> length (board s') = 9"
proof (induction es arbitrary: s)
  case Nil
  then show ?case by simp
next
  case (Cons e es)
  from Cons.prems(1) obtain t where t: "fire e s = Some t" "run es t = Some s'"
    by (auto split: option.splits)
  from fire_length[OF t(1) Cons.prems(2)] show ?case by (rule Cons.IH[OF t(2)])
qed

text \<open>
  Claim C10.  In every state reached from the initial state by clicks, computer moves,
  score updates and resets, the board has exactly nine cells.  An event that is not a
  reset leaves the board unchanged or writes a mark into exactly one cell that was
  empty, so a cell that holds a mark keeps it; a reset installs the empty board.  A
  click on an occupied cell, or on a decided board, changes nothing.
\<close>

theorem board_written_once:
  assumes "run es initial_state = Some s"
  shows "length (board s) = 9
    \<and> (\<forall>e s'. fire e s = Some s' \<longrightarrow>
          (if is_reset e then board s' = initialBoard
           else board s' = board s
              \<or> (\<exists>i<9. \<exists>m. board s ! i = Null \<and> board s' = (board s)[i := Mark m])))
    \<and> (\<forall>e s' i. fire e s = Some s' \<longrightarrow> \<not> is_reset e \<longrightarrow> i < 9 \<longrightarrow> board s ! i \<noteq> Null \<longrightarrow>
          board s' ! i = board s ! i)
    \<and> (\<forall>i<9. board s ! i \<noteq> Null \<or> winner (calculateWinner (board s)) \<noteq> WNull \<longrightarrow>
          fire (Click i) s = Some s)"
proof -
  have "length (board initial_state) = 9"
    by (simp add: initial_state_def length_initialBoard)
  with assms have len: "length (board s) = 9" by (rule run_length)
  have step: "if is_reset e then board s' = initialBoard
              else board s' = board s
                 \<or> (\<exists>i<9. \<exists>m. board s ! i = Null \<and> board s' = (board s)[i := Mark m])"
    if "fire e s = Some s'" for e s'
    using that fire_reset[of e s s'] fire_board[of e s s'] len by auto
  have keep: "board s' ! i = board s ! i"
    if "fire e s = Some s'" "\<not> is_reset e" "i < 9" "board s ! i \<noteq> Null" for e s' i
  proof -
    from fire_board[OF that(1,2)] len
    consider "board s' = board s"
      | j m where "j < 9" "board s ! j = Null" "board s' = (board s)[j := Mark m]"
      by auto
    then show ?thesis
    proof cases
      case 1
      then show ?thesis by simp
    next
      case 2
      with that(4) have "j \<noteq> i" by auto
      with 2(3) show ?thesis by simp
    qed
  qed
  have click: "fire (Click i) s = Some s"
    if "i < 9" "board s ! i \<noteq> Null \<or> winner (calculateWinner (board s)) \<noteq> WNull" for i
    using that len handleSquareClick_ignored[of i s] by simp
  from len step keep click show ?thesis by blast
qed

text \<open>
  An instance: X clicks 0, O answers in the center, X clicks 1, O blocks at 2; a further
  click on cell 2 is ignored.
\<close>

theorem board_written_once_witness:
  "run [Click 0, AIEffect, AITimer 0, Click 1, AIEffect, AITimer 3] initial_state
     = Some \<lparr>board = [Mark MX, Mark MX, Mark MO, Null, Mark MO, Null, Null, Null, Null],
             xIsNext = True, mode = PvC,
             scores = \<lparr>x_wins = 0, o_wins = 0, draws = 0\<rparr>, aiThinking = False\<rparr>
   \<and> length [Mark MX, Mark MX, Mark MO, Null, Mark MO, Null, Null, Null, Null] = 9
   \<and> fire (Click 2)
        \<lparr>board = [Mark MX, Mark MX, Mark MO, Null, Mark MO, Null, Null, Null, Null],
         xIsNext = True, mode = PvC,
         scores = \<lparr>x_wins = 0, o_wins = 0, draws = 0\<rparr>, aiThinking = False\<rparr>
     = Some \<lparr>board = [Mark MX, Mark MX, Mark MO, Null, Mark MO, Null, Null, Null, Null],
             xIsNext = True, mode = PvC,
             scores = \<lparr>x_wins = 0, o_wins = 0, draws = 0\<rparr>, aiThinking = False\<rparr>"
proof -
  let ?s = "\<lparr>board = [Mark MX, Mark MX, Mark MO, Null, Mark MO, Null, Null, Null, Null],
             xIsNext = True, mode = PvC,
             scores = \<lparr>x_wins = 0, o_wins = 0, draws = 0\<rparr>, aiThinking = False\<rparr>"
  have tr: "run [Click 0, AIEffect, AITimer 0, Click 1, AIEffect, AITimer 3] initial_state = Some ?s"
    by code_simp
  have occ: "board ?s ! 2 \<noteq> Null" by simp
  from board_written_once[OF tr]
  have "length (board ?s) = 9"
    and "\<forall>i<9. board ?s ! i \<noteq> Null \<or> winner (calculateWinner (board ?s)) \<noteq> WNull \<longrightarrow>
           fire (Click i) ?s = Some ?s"
    by blast+
  with occ have "length (board ?s) = 9" and "fire (Click 2) ?s = Some ?s" by simp_all
  with tr show ?thesis by simp
qed

end
